theory Spec2Isabelle
  imports Main "HOL-Library.Word"
begin

unbundle bit_operations_syntax

section \<open>The MSP codec of \<^verbatim>\<open>src/communication/msp.ts\<close>\<close>

text \<open>
  The class \<^verbatim>\<open>Msp\<close> encodes outgoing MSP frames (\<^verbatim>\<open>encodeV1\<close>, \<^verbatim>\<open>encodeV2\<close>,
  \<^verbatim>\<open>crc8DvbS2Data\<close>, \<^verbatim>\<open>send\<close>) and decodes the inbound byte stream with a state machine
  (\<^verbatim>\<open>processResponse\<close>).

  Data representation:
  \<^item> an element of a \<^verbatim>\<open>Uint8Array\<close> is a \<open>u8\<close>; the array is a list of them. A store
    of a number into the array keeps its low eight bits (\<open>ucast\<close>, \<open>of_nat\<close>); a store
    at an index outside the array does nothing, which is what list update does too;
  \<^item> the result of a JavaScript bitwise operator (\<^verbatim>\<open>^\<close>, \<^verbatim>\<open>&\<close>, \<^verbatim>\<open><<\<close>, \<^verbatim>\<open>>>\<close>) is a
    32-bit integer, an \<open>int32\<close>; an array element used as an operand is zero-extended;
  \<^item> lengths, indices and command codes are natural numbers.
\<close>

type_synonym u8 = "8 word"
type_synonym int32 = "32 word"

subsection \<open>Helpers the source file uses but does not define\<close>

text \<open>
  Modelled from the spec: the global helper \<^verbatim>\<open>ascii\<close> is not defined in \<^verbatim>\<open>msp.ts\<close>. The
  frames start with the bytes of the characters \<^verbatim>\<open>$\<close>, \<^verbatim>\<open>M\<close> or \<^verbatim>\<open>X\<close>, and \<^verbatim>\<open><\<close>, and the
  comments beside each call give the character codes 36, 77, 88 and 60: \<^verbatim>\<open>ascii\<close> is the
  character code.
\<close>

definition ascii :: "char \<Rightarrow> u8" where
  "ascii c = of_char c"

text \<open>
  An array element as the operand of a bitwise operator. Reading \<^verbatim>\<open>data[i]\<close> outside the
  array gives \<^verbatim>\<open>undefined\<close>, which a bitwise operator converts to 0.
\<close>

definition operand :: "u8 list \<Rightarrow> nat \<Rightarrow> int32" where
  "operand data i = (if i < length data then ucast (data ! i) else 0)"

subsection \<open>\<^verbatim>\<open>crc8DvbS2Data\<close>\<close>

text \<open>
  The inner loop \<^verbatim>\<open>for (let i = 0; i < 8; i += 1)\<close>, from counter value \<open>i\<close> on.
\<close>

function crc8DvbS2Data_bits :: "nat \<Rightarrow> int32 \<Rightarrow> int32" where
  "crc8DvbS2Data_bits i crc =
     (if i < 8 then
        crc8DvbS2Data_bits (i + 1)
          (if crc AND 0x80 \<noteq> 0 then (push_bit 1 crc AND 0xFF) XOR 0xD5
           else push_bit 1 crc AND 0xFF)
      else crc)"
  by pat_completeness auto
termination
  by (relation "measure (\<lambda>(i, crc). 8 - i)") auto

text \<open>
  The outer loop \<^verbatim>\<open>for (let i = start; i < end; i += 1)\<close>, from index \<open>i\<close> on.
\<close>

function crc8DvbS2Data_loop :: "u8 list \<Rightarrow> nat \<Rightarrow> nat \<Rightarrow> int32 \<Rightarrow> int32" where
  "crc8DvbS2Data_loop data i end_i crc =
     (if i < end_i then
        crc8DvbS2Data_loop data (i + 1) end_i (crc8DvbS2Data_bits 0 (crc XOR operand data i))
      else crc)"
  by pat_completeness auto
termination
  by (relation "measure (\<lambda>(data, i, end_i, crc). end_i - i)") auto

definition crc8DvbS2Data :: "u8 list \<Rightarrow> nat \<Rightarrow> nat \<Rightarrow> int32" where
  "crc8DvbS2Data data start end_i = crc8DvbS2Data_loop data start end_i 0"

subsection \<open>The reference CRC8-DVB-S2 of the specification\<close>

text \<open>
  The specification's definition, on bytes: polynomial \<open>0xD5\<close>, most significant bit
  first, initial value 0, no reflection. One round shifts the register left, and xors
  the polynomial in when the bit shifted out was set; a byte is xored into the register
  and followed by eight rounds.
\<close>

definition crc8_round :: "u8 \<Rightarrow> u8" where
  "crc8_round crc =
     (if bit crc 7 then (push_bit 1 crc AND 0xFF) XOR 0xD5 else push_bit 1 crc AND 0xFF)"

definition crc8_byte :: "u8 \<Rightarrow> u8 \<Rightarrow> u8" where
  "crc8_byte crc byte = (crc8_round ^^ 8) (crc XOR byte)"

definition crc8DvbS2 :: "u8 list \<Rightarrow> u8" where
  "crc8DvbS2 bytes = foldl crc8_byte 0 bytes"

text \<open>
  The byte that \<^verbatim>\<open>crc8DvbS2Data\<close> folds in at index \<open>i\<close>: the element, or 0 outside the
  array (see \<open>operand\<close>).
\<close>

definition byte_at :: "u8 list \<Rightarrow> nat \<Rightarrow> u8" where
  "byte_at data i = (if i < length data then data ! i else 0)"

subsection \<open>\<^verbatim>\<open>encodeV1\<close>\<close>

text \<open>
  The loop \<^verbatim>\<open>for (let i = 0; i < data.length; i += 1)\<close> of \<^verbatim>\<open>encodeV1\<close>, from index \<open>i\<close>
  on: it copies \<^verbatim>\<open>data[i]\<close> to \<^verbatim>\<open>bufView[i + 5]\<close> and xors the stored byte into
  \<^verbatim>\<open>checksum\<close>.
\<close>

function encodeV1_loop :: "u8 list \<Rightarrow> nat \<Rightarrow> u8 list \<Rightarrow> int32 \<Rightarrow> u8 list \<times> int32" where
  "encodeV1_loop data i bufView checksum =
     (if i < length data then
        (let bufView = bufView[i + 5 := data ! i];
             checksum = checksum XOR operand bufView (i + 5)
         in encodeV1_loop data (i + 1) bufView checksum)
      else (bufView, checksum))"
  by pat_completeness auto
termination
  by (relation "measure (\<lambda>(data, i, bufView, checksum). length data - i)") auto

text \<open>
  \<^verbatim>\<open>encodeV1\<close> allocates \<open>6 + data.length\<close> zero bytes and fills them in. It has no
  branch that rejects an input. \<^verbatim>\<open>bufView[3] = data.length\<close> and \<^verbatim>\<open>bufView[4] = command\<close>
  store the low eight bits of the numbers.
\<close>

definition encodeV1 :: "nat \<Rightarrow> u8 list \<Rightarrow> u8 list" where
  "encodeV1 command data =
     (let size = 6 + length data;
          bufView = replicate size (0 :: u8);
          bufView = bufView[0 := ascii CHR ''$''];
          bufView = bufView[1 := ascii CHR ''M''];
          bufView = bufView[2 := ascii CHR ''<''];
          bufView = bufView[3 := of_nat (length data)];
          bufView = bufView[4 := of_nat command]
      in if length data > 0 then
           (let checksum = operand bufView 3 XOR operand bufView 4;
                (bufView, checksum) = encodeV1_loop data 0 bufView checksum
            in bufView[5 + length data := ucast checksum])
         else bufView[5 := ucast (operand bufView 3 XOR operand bufView 4)])"

subsection \<open>\<^verbatim>\<open>encodeV2\<close>\<close>

text \<open>
  A number as the operand of a bitwise operator (\<^verbatim>\<open>ToInt32\<close>): its value modulo \<open>2^32\<close>.
\<close>

definition toInt32 :: "nat \<Rightarrow> int32" where
  "toInt32 n = of_nat n"

text \<open>The copy loop \<^verbatim>\<open>for (let i = 0; i < dataLength; i += 1)\<close>, from index \<open>i\<close> on.\<close>

function encodeV2_loop :: "u8 list \<Rightarrow> nat \<Rightarrow> nat \<Rightarrow> u8 list \<Rightarrow> u8 list" where
  "encodeV2_loop data dataLength i bufView =
     (if i < dataLength then
        encodeV2_loop data dataLength (i + 1) (bufView[8 + i := byte_at data i])
      else bufView)"
  by pat_completeness auto
termination
  by (relation "measure (\<lambda>(data, dataLength, i, bufView). dataLength - i)") auto

text \<open>\<^verbatim>\<open>>>\<close> is the sign-propagating shift of a 32-bit integer.\<close>

definition encodeV2 :: "nat \<Rightarrow> u8 list \<Rightarrow> u8 list" where
  "encodeV2 command data =
     (let dataLength = length data;
          size = 9 + dataLength;
          bufView = replicate size (0 :: u8);
          bufView = bufView[0 := ascii CHR ''$''];
          bufView = bufView[1 := ascii CHR ''X''];
          bufView = bufView[2 := ascii CHR ''<''];
          bufView = bufView[3 := 0];
          bufView = bufView[4 := ucast (toInt32 command AND 0xFF)];
          bufView = bufView[5 := ucast (signed_drop_bit 8 (toInt32 command) AND 0xFF)];
          bufView = bufView[6 := ucast (toInt32 dataLength AND 0xFF)];
          bufView = bufView[7 := ucast (signed_drop_bit 8 (toInt32 dataLength) AND 0xFF)];
          bufView = encodeV2_loop data dataLength 0 bufView
      in bufView[size - 1 := ucast (crc8DvbS2Data bufView 3 (size - 1))])"

subsection \<open>The XOR checksum of the specification\<close>

text \<open>The specification's \<^verbatim>\<open>xorChecksum\<close>: the XOR of every byte of the sequence.\<close>

definition xorChecksum :: "u8 list \<Rightarrow> u8" where
  "xorChecksum bytes = foldr (XOR) bytes 0"

subsection \<open>The state of an \<^verbatim>\<open>Msp\<close> instance\<close>

text \<open>
  A decoded frame as \<^verbatim>\<open>processResponse\<close> hands it to \<^verbatim>\<open>CommandQueue.addCommand\<close>: the
  pair of \<^verbatim>\<open>commandName\<close> (the field \<^verbatim>\<open>command\<close>, which is \<^verbatim>\<open>null\<close> until a command byte
  was read) and the bytes of \<^verbatim>\<open>data\<close>.
\<close>

type_synonym frame = "nat option \<times> u8 list"

text \<open>The calls of the logging functions: \<^verbatim>\<open>log\<close> in \<^verbatim>\<open>send\<close>, \<^verbatim>\<open>logError\<close> elsewhere.\<close>

datatype log_entry =
    Log_Sending nat
  | LogError_command_failed string
  | LogError_unknown_direction u8

text \<open>
  The fields of the class, by their names, followed by the effects on the collaborators:
  \<open>written\<close> are the buffers passed to \<^verbatim>\<open>Serial.write\<close>, \<open>queued\<close> the frames passed to
  \<^verbatim>\<open>CommandQueue.addCommand\<close>, \<open>logged\<close> the log calls, each in the order of the calls.
  The diagnostic \<^verbatim>\<open>console.log\<close> of the checksum stage is not recorded.

  \<^verbatim>\<open>messageBufferUint8View\<close> is the byte view of \<^verbatim>\<open>messageBuffer\<close>: the two are replaced
  together, in the length stage by a buffer of the expected length and its view, in the
  checksum stage and in the initial state by two empty ones. A write through the view
  is a write to the buffer, and a write to an empty view does nothing, as a list update
  of the empty list: the single field \<open>messageBuffer\<close> stands for both. The frame handed
  over in the checksum stage keeps the buffer that the instance drops in the same step,
  so the frame's bytes are the bytes at that moment.
\<close>

record msp =
  commandCount :: int
  state :: nat
  messageBuffer :: "u8 list"
  messageChecksum :: int32
  messageLengthExpected :: nat
  messageLengthReceived :: nat
  command :: "nat option"
  written :: "u8 list list"
  queued :: "frame list"
  logged :: "log_entry list"

text \<open>A new instance: the field initialisers of the class, and no effects yet.\<close>

definition new_msp :: msp where
  "new_msp =
     \<lparr>commandCount = 0, state = 0, messageBuffer = [], messageChecksum = 0,
      messageLengthExpected = 0, messageLengthReceived = 0, command = None,
      written = [], queued = [], logged = []\<rparr>"

subsection \<open>\<^verbatim>\<open>send\<close>\<close>

text \<open>
  \<^verbatim>\<open>Serial.write\<close> is a parameter: it returns \<open>Inr\<close> of its result, or \<open>Inl\<close> of the
  message of the error it throws, which \<^verbatim>\<open>send\<close> logs before it returns \<^verbatim>\<open>null\<close>
  (\<open>None\<close>). The arguments are called \<open>cmd\<close> and \<open>payload\<close> here (\<^verbatim>\<open>command\<close> and
  \<^verbatim>\<open>data\<close> in the source), \<open>command\<close> being a field of the record.
\<close>

definition send_bufferOut :: "nat \<Rightarrow> u8 list option \<Rightarrow> u8 list" where
  "send_bufferOut cmd payload =
     (if cmd \<le> 254 then encodeV1 cmd (case payload of Some d \<Rightarrow> d | None \<Rightarrow> [])
      else encodeV2 cmd (case payload of Some d \<Rightarrow> d | None \<Rightarrow> []))"

definition send ::
  "(u8 list \<Rightarrow> string + 'r) \<Rightarrow> msp \<Rightarrow> nat \<Rightarrow> u8 list option \<Rightarrow> 'r option \<times> msp" where
  "send serial_write m cmd payload =
     (let m = m\<lparr>logged := logged m @ [Log_Sending cmd]\<rparr>;
          bufferOut = send_bufferOut cmd payload;
          m = m\<lparr>commandCount := commandCount m + 1\<rparr>;
          m = m\<lparr>written := written m @ [bufferOut]\<rparr>
      in case serial_write bufferOut of
           Inr result \<Rightarrow> (Some result, m)
         | Inl message \<Rightarrow> (None, m\<lparr>logged := logged m @ [LogError_command_failed message]\<rparr>))"

subsection \<open>\<^verbatim>\<open>processResponse\<close>\<close>

text \<open>
  The body of the loop \<^verbatim>\<open>for (let char of data)\<close>: the \<^verbatim>\<open>switch\<close> on \<^verbatim>\<open>this.state\<close>, which
  has no default case. \<^verbatim>\<open>messageChecksum\<close> and \<^verbatim>\<open>char\<close> are compared as numbers; the
  number of a byte is its zero extension.
\<close>

definition processResponse_char :: "msp \<Rightarrow> u8 \<Rightarrow> msp" where
  "processResponse_char m char =
     (if state m = 0 then
        (if char = ascii CHR ''$'' then m\<lparr>state := state m + 1\<rparr> else m)
      else if state m = 1 then
        (if char = ascii CHR ''M'' then m\<lparr>state := state m + 1\<rparr> else m\<lparr>state := 0\<rparr>)
      else if state m = 2 then
        (if char \<in> set [ascii CHR ''<'', ascii CHR ''>''] then m\<lparr>state := state m + 1\<rparr>
         else m\<lparr>state := 0, logged := logged m @ [LogError_unknown_direction char]\<rparr>)
      else if state m = 3 then
        m\<lparr>messageLengthExpected := unat char,
          messageChecksum := ucast char,
          messageBuffer := replicate (unat char) 0,
          state := state m + 1\<rparr>
      else if state m = 4 then
        (let m = m\<lparr>command := Some (unat char),
                   messageChecksum := messageChecksum m XOR ucast char\<rparr>
         in if messageLengthExpected m > 0 then m\<lparr>state := state m + 1\<rparr>
            else m\<lparr>state := state m + 2\<rparr>)
      else if state m = 5 then
        (let m = m\<lparr>messageBuffer := (messageBuffer m)[messageLengthReceived m := char],
                   messageChecksum := messageChecksum m XOR ucast char,
                   messageLengthReceived := messageLengthReceived m + 1\<rparr>
         in if messageLengthReceived m \<ge> messageLengthExpected m then m\<lparr>state := state m + 1\<rparr>
            else m)
      else if state m = 6 then
        (let m = (if messageChecksum m = ucast char then
                    m\<lparr>commandCount := commandCount m - 1,
                      queued := queued m @ [(command m, messageBuffer m)]\<rparr>
                  else m)
         in m\<lparr>state := 0,
              messageBuffer := [],
              messageChecksum := 0,
              messageLengthExpected := 0,
              messageLengthReceived := 0,
              command := None\<rparr>)
      else m)"

definition processResponse :: "msp \<Rightarrow> u8 list \<Rightarrow> msp" where
  "processResponse m bytes = foldl processResponse_char m bytes"

text \<open>The response direction byte \<^verbatim>\<open>>\<close> in place of the byte at index 2 of a frame.\<close>

definition as_response :: "u8 list \<Rightarrow> u8 list" where
  "as_response bytes = bytes[2 := ascii CHR ''>'']"

text \<open>
  The loops are unfolded one iteration at a time in the proofs, by hand.
\<close>

declare crc8DvbS2Data_bits.simps [simp del]
declare crc8DvbS2Data_loop.simps [simp del]
declare encodeV1_loop.simps [simp del]
declare encodeV2_loop.simps [simp del]

section \<open>Properties of the checksum\<close>

subsection \<open>One round on 32-bit integers is one round on bytes\<close>

lemma ucast_xor_poly: "(ucast (c :: u8) :: int32) XOR 0xD5 = ucast (c XOR 0xD5)"
  by (simp add: unsigned_xor_eq)

lemma ucast_shift_byte:
  "push_bit 1 (ucast (c :: u8) :: int32) AND 0xFF = ucast (push_bit 1 c :: u8)"
proof -
  have "(0xFF :: int32) = mask 8"
    by (simp add: mask_numeral)
  then show ?thesis
    by (simp only: unsigned_push_bit_eq take_bit_eq_mask) simp
qed

lemma ucast_high_bit: "((ucast (c :: u8) :: int32) AND 0x80 \<noteq> 0) = bit c 7"
proof -
  have "(0x80 :: int32) = 2 ^ 7"
    by simp
  then have "((ucast c :: int32) AND 0x80 \<noteq> 0) = bit (ucast c :: int32) 7"
    by (simp only: and_exp_eq_0_iff_not_bit) simp
  then show ?thesis
    by (simp add: bit_simps)
qed

lemma byte_and_FF: "(c :: u8) AND 0xFF = c"
proof -
  have "(0xFF :: u8) = - 1"
    by simp
  then show ?thesis
    by (simp only: and.right_neutral)
qed

lemma round_ucast:
  "(if (ucast (c :: u8) :: int32) AND 0x80 \<noteq> 0
    then (push_bit 1 (ucast c) AND 0xFF) XOR 0xD5
    else push_bit 1 (ucast c) AND 0xFF) = (ucast (crc8_round c) :: int32)"
proof (cases "bit c 7")
  case True
  then show ?thesis
    by (simp only: ucast_high_bit ucast_shift_byte ucast_xor_poly crc8_round_def byte_and_FF
        if_True)
next
  case False
  then show ?thesis
    by (simp only: ucast_high_bit ucast_shift_byte crc8_round_def byte_and_FF if_False)
qed

lemma bits_ucast:
  "crc8DvbS2Data_bits i (ucast (c :: u8)) = ucast ((crc8_round ^^ (8 - i)) c)"
proof (induction "8 - i" arbitrary: i c)
  case 0
  then show ?case by (subst crc8DvbS2Data_bits.simps) simp
next
  case (Suc n)
  then have less: "i < 8" and n: "n = 8 - (i + 1)" and unfold: "8 - i = Suc (8 - (i + 1))"
    by simp_all
  have "crc8DvbS2Data_bits i (ucast c) = crc8DvbS2Data_bits (i + 1) (ucast (crc8_round c))"
    using less by (subst crc8DvbS2Data_bits.simps) (simp only: round_ucast if_True)
  also have "\<dots> = ucast ((crc8_round ^^ (8 - (i + 1))) (crc8_round c))"
    using Suc.hyps(1) [OF n] .
  also have "\<dots> = ucast ((crc8_round ^^ (8 - i)) c)"
    by (simp only: unfold funpow_Suc_right o_apply)
  finally show ?case .
qed

lemma operand_byte_at: "operand data i = ucast (byte_at data i)"
  by (simp add: operand_def byte_at_def)

lemma loop_ucast:
  "crc8DvbS2Data_loop data i end_i (ucast (c :: u8)) =
     ucast (foldl crc8_byte c (map (byte_at data) [i..<end_i]))"
proof (induction data i end_i "ucast c :: int32" arbitrary: c rule: crc8DvbS2Data_loop.induct)
  case (1 data i end_i)
  show ?case
  proof (cases "i < end_i")
    case True
    have step: "crc8DvbS2Data_bits 0 (ucast c XOR operand data i) =
        ucast (crc8_byte c (byte_at data i))"
      using bits_ucast [of 0 "c XOR byte_at data i"]
      by (simp add: operand_byte_at unsigned_xor_eq crc8_byte_def)
    have "crc8DvbS2Data_loop data i end_i (ucast c) =
        crc8DvbS2Data_loop data (i + 1) end_i (ucast (crc8_byte c (byte_at data i)))"
      using True by (subst crc8DvbS2Data_loop.simps) (simp only: step if_True)
    also have "\<dots> = ucast (foldl crc8_byte (crc8_byte c (byte_at data i))
        (map (byte_at data) [i + 1..<end_i]))"
      using "1.hyps" [OF True step] .
    finally show ?thesis
      using True by (simp add: upt_conv_Cons)
  next
    case False
    then show ?thesis by (subst crc8DvbS2Data_loop.simps) simp
  qed
qed

lemma map_byte_at_slice:
  "end_i \<le> length data \<Longrightarrow>
     map (byte_at data) [start..<end_i] = take (end_i - start) (drop start data)"
  by (rule nth_equalityI) (auto simp: byte_at_def)

lemma crc8DvbS2Data_slice:
  "end_i \<le> length data \<Longrightarrow>
     crc8DvbS2Data data start end_i = ucast (crc8DvbS2 (take (end_i - start) (drop start data)))"
  using loop_ucast [of data start end_i 0]
  by (simp add: crc8DvbS2Data_def crc8DvbS2_def map_byte_at_slice)

text \<open>
  C3. For every byte sequence and every half-open index range \<open>[start, end)\<close> inside it,
  \<^verbatim>\<open>crc8DvbS2Data\<close> returns the reference CRC8-DVB-S2 (polynomial \<open>0xD5\<close>, most
  significant bit first, initial value 0, no reflection) of the bytes in the range; the
  checksum of an empty range is 0; and the checksum depends on the order of the bytes:
  there are two bytes whose swap changes it.
\<close>

theorem crc8DvbS2Data_reference:
  assumes "end_i \<le> length data"
  shows "crc8DvbS2Data data start end_i =
           ucast (crc8DvbS2 (take (end_i - start) (drop start data)))
         \<and> crc8DvbS2Data data start start = 0
         \<and> (\<exists>a b. crc8DvbS2Data [a, b] 0 2 \<noteq> crc8DvbS2Data [b, a] 0 2)"
proof -
  have "crc8DvbS2Data [1, 2] 0 2 \<noteq> crc8DvbS2Data [2, 1] 0 2"
    by code_simp
  then have "\<exists>a b. crc8DvbS2Data [a, b] 0 2 \<noteq> crc8DvbS2Data [b, a] 0 2"
    by blast
  moreover have "crc8DvbS2Data data start start = 0"
    by (simp add: crc8DvbS2Data_def crc8DvbS2Data_loop.simps)
  ultimately show ?thesis
    using crc8DvbS2Data_slice [OF assms] by simp
qed

theorem crc8DvbS2Data_reference_witness:
  "crc8DvbS2Data [0x10, 0x20, 0x30, 0x40] 1 3 = ucast (crc8DvbS2 [0x20, 0x30])
   \<and> crc8DvbS2Data [0x10, 0x20, 0x30, 0x40] 1 3 = 0x43"
proof -
  have "crc8DvbS2Data [0x10, 0x20, 0x30, 0x40] 1 3 = 0x43"
    by code_simp
  then show ?thesis
    using crc8DvbS2Data_reference [of 3 "[0x10, 0x20, 0x30, 0x40]" 1] by simp
qed

section \<open>Properties of the encoders\<close>

subsection \<open>The bytes of a V1 frame\<close>

lemma ucast_byte_back: "(ucast (ucast (a :: u8) :: int32) :: u8) = a"
  by (rule ucast_up_ucast_id) (simp add: is_up)

lemma ucast_xor_bytes: "(ucast (a :: u8) :: int32) XOR ucast (b :: u8) = ucast (a XOR b)"
  by (simp add: unsigned_xor_eq)

lemma take_Suc_update: "n < length xs \<Longrightarrow> take (Suc n) (xs[n := v]) = take n xs @ [v]"
  by (simp add: take_Suc_conv_app_nth)

lemma encodeV1_loop_result:
  "length bufView = 6 + length data \<Longrightarrow> i \<le> length data \<Longrightarrow>
     encodeV1_loop data i bufView (ucast c) =
       (take (5 + i) bufView @ drop i data @ drop (5 + length data) bufView,
        ucast (c XOR xorChecksum (drop i data)))"
proof (induction "length data - i" arbitrary: i bufView c)
  case 0
  then show ?case by (subst encodeV1_loop.simps) (simp add: xorChecksum_def)
next
  case (Suc n)
  then have less: "i < length data" by simp
  let ?buf = "bufView[i + 5 := data ! i]"
  have op: "operand ?buf (i + 5) = ucast (data ! i)"
    using less Suc.prems(1) by (simp add: operand_def)
  have "encodeV1_loop data i bufView (ucast c) =
      encodeV1_loop data (i + 1) ?buf (ucast (c XOR data ! i))"
    using less by (subst encodeV1_loop.simps) (simp add: Let_def op ucast_xor_bytes)
  also have "\<dots> = (take (5 + (i + 1)) ?buf @ drop (i + 1) data @ drop (5 + length data) ?buf,
      ucast ((c XOR data ! i) XOR xorChecksum (drop (i + 1) data)))"
    using Suc.hyps(2) less Suc.prems(1) by (intro Suc.hyps(1)) simp_all
  also have "take (5 + (i + 1)) ?buf = take (5 + i) bufView @ [data ! i]"
    using take_Suc_update [of "5 + i" bufView "data ! i"] less Suc.prems(1)
    by (simp add: add.commute)
  also have "drop (5 + length data) ?buf = drop (5 + length data) bufView"
    using less by simp
  also have "(c XOR data ! i) XOR xorChecksum (drop (i + 1) data) = c XOR xorChecksum (drop i data)"
    using less by (simp add: xorChecksum_def Cons_nth_drop_Suc [symmetric] xor.assoc)
  finally show ?case
    using less by (simp add: Cons_nth_drop_Suc)
qed

lemma header_V1:
  "(replicate (6 + n) (0 :: u8))[0 := a, 1 := b, 2 := c, 3 := d, 4 := e] =
     [a, b, c, d, e] @ replicate n 0 @ [0]"
  by (simp add: eval_nat_numeral replicate_append_same)

lemma encodeV1_bytes:
  "encodeV1 cmd payload =
     [0x24, 0x4D, 0x3C, of_nat (length payload), of_nat cmd] @ payload @
     [xorChecksum (of_nat (length payload) # of_nat cmd # payload)]"
proof -
  let ?hdr = "[0x24, 0x4D, 0x3C, of_nat (length payload), of_nat cmd] :: u8 list"
  let ?buf = "?hdr @ replicate (length payload) 0 @ [0]"
  have buf: "(replicate (6 + length payload) (0 :: u8))
      [0 := ascii CHR ''$'', 1 := ascii CHR ''M'', 2 := ascii CHR ''<'',
       3 := of_nat (length payload), 4 := of_nat cmd] = ?buf"
    by (simp only: header_V1) (simp add: ascii_def)
  have op3: "operand ?buf 3 = ucast (of_nat (length payload) :: u8)"
    and op4: "operand ?buf 4 = ucast (of_nat cmd :: u8)"
    by (simp_all add: operand_def)
  show ?thesis
  proof (cases "length payload > 0")
    case False
    then show ?thesis
      unfolding encodeV1_def Let_def buf op3 op4
      by (simp add: xorChecksum_def ucast_xor_bytes ucast_byte_back)
  next
    case True
    have dr: "drop (5 + length payload) ?buf = [0]" and tk: "take 5 ?buf = ?hdr"
      by (simp_all add: eval_nat_numeral)
    have loop: "encodeV1_loop payload 0 ?buf (ucast (of_nat (length payload) XOR of_nat cmd :: u8)) =
        (?hdr @ payload @ [0],
         ucast ((of_nat (length payload) XOR of_nat cmd) XOR xorChecksum payload))"
      using encodeV1_loop_result [of ?buf payload 0 "of_nat (length payload) XOR of_nat cmd"]
      unfolding dr by (simp add: tk)
    have upd: "(?hdr @ payload @ [0])[5 + length payload := v] = ?hdr @ payload @ [v]" for v
      by (simp add: list_update_append)
    show ?thesis
      using True unfolding encodeV1_def Let_def buf op3 op4 ucast_xor_bytes loop
      by (simp only: if_True prod.case upd ucast_byte_back) (simp add: xorChecksum_def xor.assoc)
  qed
qed

subsection \<open>The bytes of a V2 frame\<close>

lemma byte_mask: "(0xFF :: int32) = mask 8"
  by (simp add: mask_numeral)

lemma low_byte: "(ucast (toInt32 n AND 0xFF) :: u8) = of_nat n"
  unfolding byte_mask toInt32_def
  by (rule bit_word_eqI) (auto simp add: bit_simps)

lemma high_byte: "(ucast (signed_drop_bit 8 (toInt32 n) AND 0xFF) :: u8) = of_nat (n div 256)"
proof -
  have "n div 256 = drop_bit 8 n"
    by (simp add: drop_bit_eq_div)
  then show ?thesis
    unfolding byte_mask toInt32_def
    by (intro bit_word_eqI) (auto simp add: bit_simps bit_signed_drop_bit_iff)
qed

lemma encodeV2_loop_result:
  "length bufView = 9 + length data \<Longrightarrow> i \<le> length data \<Longrightarrow>
     encodeV2_loop data (length data) i bufView =
       take (8 + i) bufView @ drop i data @ drop (8 + length data) bufView"
proof (induction "length data - i" arbitrary: i bufView)
  case 0
  then show ?case by (subst encodeV2_loop.simps) simp
next
  case (Suc n)
  then have less: "i < length data" by simp
  let ?buf = "bufView[8 + i := data ! i]"
  have "encodeV2_loop data (length data) i bufView = encodeV2_loop data (length data) (i + 1) ?buf"
    using less by (subst encodeV2_loop.simps) (simp add: byte_at_def)
  also have "\<dots> = take (8 + (i + 1)) ?buf @ drop (i + 1) data @ drop (8 + length data) ?buf"
    using Suc.hyps(2) less Suc.prems(1) by (intro Suc.hyps(1)) simp_all
  also have "take (8 + (i + 1)) ?buf = take (8 + i) bufView @ [data ! i]"
    using take_Suc_update [of "8 + i" bufView "data ! i"] less Suc.prems(1)
    by (simp add: add.commute)
  also have "drop (8 + length data) ?buf = drop (8 + length data) bufView"
    using less by simp
  finally show ?case
    using less by (simp add: Cons_nth_drop_Suc)
qed

lemma header_V2:
  "(replicate (9 + n) (0 :: u8))[0 := a, 1 := b, 2 := c, 3 := d, 4 := e, 5 := f, 6 := g, 7 := h] =
     [a, b, c, d, e, f, g, h] @ replicate n 0 @ [0]"
  by (simp add: eval_nat_numeral replicate_append_same)

lemma slice_V2:
  "take (8 + length p - 3) (drop 3 ([a, b, c, d, e, f, g, h] @ p @ [z])) = [d, e, f, g, h] @ p"
  by (simp add: eval_nat_numeral)

lemma rest_V2: "drop (8 + length p) ([a, b, c, d, e, f, g, h] @ p @ [z]) = [z]"
  by (simp add: eval_nat_numeral)

lemma encodeV2_bytes:
  "encodeV2 cmd payload =
     [0x24, 0x58, 0x3C, 0, of_nat cmd, of_nat (cmd div 256),
      of_nat (length payload), of_nat (length payload div 256)] @ payload @
     [crc8DvbS2 ([0, of_nat cmd, of_nat (cmd div 256),
                  of_nat (length payload), of_nat (length payload div 256)] @ payload)]"
proof -
  let ?n = "length payload"
  let ?hdr = "[0x24, 0x58, 0x3C, 0, of_nat cmd, of_nat (cmd div 256),
      of_nat ?n, of_nat (?n div 256)] :: u8 list"
  let ?buf = "?hdr @ replicate ?n 0 @ [0]"
  let ?full = "?hdr @ payload @ [0]"
  have buf: "(replicate (9 + ?n) (0 :: u8))
      [0 := ascii CHR ''$'', 1 := ascii CHR ''X'', 2 := ascii CHR ''<'', 3 := 0,
       4 := ucast (toInt32 cmd AND 0xFF), 5 := ucast (signed_drop_bit 8 (toInt32 cmd) AND 0xFF),
       6 := ucast (toInt32 ?n AND 0xFF), 7 := ucast (signed_drop_bit 8 (toInt32 ?n) AND 0xFF)] = ?buf"
    by (simp only: header_V2 low_byte high_byte) (simp add: ascii_def)
  have dr: "drop (8 + ?n) ?buf = [0]"
    using rest_V2 [of "replicate ?n 0"] by simp
  have tk: "take 8 ?buf = ?hdr"
    by simp
  have loop: "encodeV2_loop payload ?n 0 ?buf = ?full"
    using encodeV2_loop_result [of ?buf payload 0] unfolding dr by (simp add: tk)
  have slice: "take (8 + ?n - 3) (drop 3 ?full) =
      [0, of_nat cmd, of_nat (cmd div 256), of_nat ?n, of_nat (?n div 256)] @ payload"
    by (rule slice_V2)
  have crc: "crc8DvbS2Data ?full 3 (8 + ?n) =
      ucast (crc8DvbS2 ([0, of_nat cmd, of_nat (cmd div 256), of_nat ?n, of_nat (?n div 256)]
        @ payload))"
    using crc8DvbS2Data_slice [of "8 + ?n" ?full 3] unfolding slice by simp
  have upd: "?full[8 + ?n := v] = ?hdr @ payload @ [v]" for v
    by (simp add: list_update_append)
  have size: "9 + ?n - 1 = 8 + ?n"
    by simp
  show ?thesis
    unfolding encodeV2_def Let_def buf loop size crc upd ucast_byte_back ..
qed

subsection \<open>The frames the encoders build\<close>

lemma unat_of_nat_byte: "unat (of_nat n :: u8) = n mod 256"
  by (simp add: unat_of_nat take_bit_eq_mod)

lemma unat_byte: "n \<le> 255 \<Longrightarrow> unat (of_nat n :: u8) = n"
  by (simp add: unat_of_nat_byte)

lemma of_nat_mod_byte: "(of_nat (n mod 256) :: u8) = of_nat n"
  by (simp add: word_of_nat_eq_iff take_bit_eq_mod)

text \<open>
  C6. For every command code in 0..254 and every payload of 0..255 bytes, \<^verbatim>\<open>encodeV1\<close>
  returns exactly the bytes \<^verbatim>\<open>$\<close>, \<^verbatim>\<open>M\<close>, \<^verbatim>\<open><\<close>, one length byte whose value is the payload
  length, one command byte whose value is the command code, the payload, and a checksum
  byte that is the XOR of the length byte, the command byte and every payload byte. In
  particular command 1 with the empty payload gives \<open>[0x24, 0x4D, 0x3C, 0x00, 0x01, 0x01]\<close>.
\<close>

theorem encodeV1_frame:
  assumes "cmd \<le> 254" and "length payload \<le> 255"
  shows "encodeV1 cmd payload =
           [0x24, 0x4D, 0x3C, of_nat (length payload), of_nat cmd] @ payload @
           [xorChecksum (of_nat (length payload) # of_nat cmd # payload)]
         \<and> unat (of_nat (length payload) :: u8) = length payload
         \<and> unat (of_nat cmd :: u8) = cmd
         \<and> encodeV1 1 [] = [0x24, 0x4D, 0x3C, 0x00, 0x01, 0x01]"
proof -
  have "encodeV1 1 [] = [0x24, 0x4D, 0x3C, 0x00, 0x01, 0x01]"
    by (simp add: encodeV1_bytes xorChecksum_def)
  then show ?thesis
    using assms by (simp add: encodeV1_bytes unat_byte)
qed

text \<open>The command \<^verbatim>\<open>MSP_SET_PASSTHROUGH\<close> (245) with a payload of three bytes.\<close>

theorem encodeV1_frame_witness:
  "encodeV1 245 [1, 2, 3] = [0x24, 0x4D, 0x3C, 3, 245, 1, 2, 3, 246]
   \<and> unat (3 :: u8) = 3 \<and> unat (245 :: u8) = 245"
  using encodeV1_frame [of 245 "[1, 2, 3]"] by (simp add: xorChecksum_def)

text \<open>
  C5, amended. \<^verbatim>\<open>encodeV1\<close> does not check the payload length and rejects nothing: for
  every command code and every payload, of any length, it returns a frame of
  \<open>6 + length\<close> bytes that carries the whole payload and whose length byte is the
  payload length modulo 256. That the payload has at most 255 bytes is left to the
  caller.
\<close>

theorem encodeV1_no_length_guard:
  "length (encodeV1 cmd payload) = 6 + length payload
   \<and> unat (encodeV1 cmd payload ! 3) = length payload mod 256
   \<and> take (length payload) (drop 5 (encodeV1 cmd payload)) = payload"
  by (simp add: encodeV1_bytes unat_of_nat)

text \<open>
  C5, as stated, fails: \<^verbatim>\<open>encodeV1\<close> has no check of the payload length. For a payload of
  256 bytes it returns a frame of 262 bytes whose length byte is 0.
\<close>

theorem encodeV1_oversized_counterexample:
  "length (replicate 256 (0 :: u8)) > 255
   \<and> length (encodeV1 1 (replicate 256 0)) = 262
   \<and> encodeV1 1 (replicate 256 0) ! 3 = 0"
  by (simp add: encodeV1_bytes)

text \<open>
  C4. For every command code in 255..65535 and every payload of 0..65535 bytes,
  \<^verbatim>\<open>encodeV2\<close> returns the bytes \<^verbatim>\<open>$\<close>, \<^verbatim>\<open>X\<close>, \<^verbatim>\<open><\<close>, a flag byte 0, the command code as
  two bytes, low byte first, the payload length as two bytes, low byte first, the
  payload, and a final byte that is the reference CRC8-DVB-S2 of the bytes from the
  flag byte to the last payload byte.
\<close>

theorem encodeV2_frame:
  assumes "255 \<le> cmd" and "cmd \<le> 65535" and "length payload \<le> 65535"
  shows "encodeV2 cmd payload =
           [0x24, 0x58, 0x3C, 0,
            of_nat (cmd mod 256), of_nat (cmd div 256),
            of_nat (length payload mod 256), of_nat (length payload div 256)] @ payload @
           [crc8DvbS2 ([0, of_nat (cmd mod 256), of_nat (cmd div 256),
                        of_nat (length payload mod 256), of_nat (length payload div 256)]
                       @ payload)]
         \<and> unat (of_nat (cmd mod 256) :: u8) = cmd mod 256
         \<and> unat (of_nat (cmd div 256) :: u8) = cmd div 256
         \<and> unat (of_nat (length payload mod 256) :: u8) = length payload mod 256
         \<and> unat (of_nat (length payload div 256) :: u8) = length payload div 256"
proof -
  have "cmd div 256 \<le> 255" and "length payload div 256 \<le> 255"
    using assms by simp_all
  then show ?thesis
    by (simp only: encodeV2_bytes of_nat_mod_byte) (simp add: unat_byte unat_of_nat_byte)
qed

text \<open>The command \<^verbatim>\<open>MSP2_SEND_DSHOT_COMMAND\<close> (\<open>0x3003\<close>) with a payload of three bytes.\<close>

theorem encodeV2_frame_witness:
  "encodeV2 0x3003 [1, 2, 3] = [0x24, 0x58, 0x3C, 0, 0x03, 0x30, 3, 0, 1, 2, 3, 221]"
proof -
  have "crc8DvbS2 [0, 0x03, 0x30, 3, 0, 1, 2, 3] = 221"
    by code_simp
  then show ?thesis
    using encodeV2_frame [of "0x3003" "[1, 2, 3]"] by simp
qed

subsection \<open>The format \<^verbatim>\<open>send\<close> selects\<close>

text \<open>The second byte tells a V1 frame from a V2 frame.\<close>

lemma encodeV1_neq_encodeV2: "encodeV1 cmd payload \<noteq> encodeV2 cmd' payload'"
  by (simp add: encodeV1_bytes encodeV2_bytes)

text \<open>
  C7. For every command code and payload, the buffer that \<^verbatim>\<open>send\<close> passes to
  \<^verbatim>\<open>Serial.write\<close> is the V1 encoding of the command and payload (the empty payload when
  none is given) exactly when the command code is at most 254, and the V2 encoding
  exactly when it is greater than 254.
\<close>

theorem send_format_selection:
  "written (snd (send serial_write m cmd payload)) =
     written m @ [if cmd \<le> 254 then encodeV1 cmd (case payload of Some d \<Rightarrow> d | None \<Rightarrow> [])
                  else encodeV2 cmd (case payload of Some d \<Rightarrow> d | None \<Rightarrow> [])]
   \<and> (last (written (snd (send serial_write m cmd payload))) =
        encodeV1 cmd (case payload of Some d \<Rightarrow> d | None \<Rightarrow> [])) = (cmd \<le> 254)
   \<and> (last (written (snd (send serial_write m cmd payload))) =
        encodeV2 cmd (case payload of Some d \<Rightarrow> d | None \<Rightarrow> [])) = (cmd > 254)"
proof -
  have w: "written (snd (send serial_write m cmd payload)) =
      written m @ [send_bufferOut cmd payload]"
    by (simp add: send_def Let_def split: sum.split)
  show ?thesis
    unfolding w
    by (simp add: send_bufferOut_def encodeV1_neq_encodeV2 encodeV1_neq_encodeV2 [THEN not_sym])
qed


theorem send_format_selection_witness:
  "written (snd (send (\<lambda>b. Inr ()) new_msp 1 None)) = written new_msp @ [encodeV1 1 []]
   \<and> written (snd (send (\<lambda>b. Inr ()) new_msp 255 None)) = written new_msp @ [encodeV2 255 []]"
  using send_format_selection [of "\<lambda>b. Inr ()" new_msp 1 None]
    send_format_selection [of "\<lambda>b. Inr ()" new_msp 255 None]
  by simp

section \<open>Properties of the parser\<close>

subsection \<open>One byte in each stage\<close>

lemma processResponse_Nil: "processResponse m [] = m"
  by (simp add: processResponse_def)

lemma processResponse_Cons:
  "processResponse m (c # cs) = processResponse (processResponse_char m c) cs"
  by (simp add: processResponse_def)

lemma processResponse_append:
  "processResponse m (xs @ ys) = processResponse (processResponse m xs) ys"
  by (simp add: processResponse_def)

lemma char_wait_dollar:
  "state m = 0 \<Longrightarrow> processResponse_char m c = (if c = 0x24 then m\<lparr>state := 1\<rparr> else m)"
  by (simp add: processResponse_char_def ascii_def)

lemma char_wait_marker:
  "state m = 1 \<Longrightarrow>
     processResponse_char m c = (if c = 0x4D then m\<lparr>state := 2\<rparr> else m\<lparr>state := 0\<rparr>)"
  by (simp add: processResponse_char_def ascii_def)

lemma char_wait_direction:
  "state m = 2 \<Longrightarrow>
     processResponse_char m c =
       (if c = 0x3C \<or> c = 0x3E then m\<lparr>state := 3\<rparr>
        else m\<lparr>state := 0, logged := logged m @ [LogError_unknown_direction c]\<rparr>)"
  by (auto simp add: processResponse_char_def ascii_def)

lemma char_length:
  "state m = 3 \<Longrightarrow>
     processResponse_char m c =
       m\<lparr>messageLengthExpected := unat c, messageChecksum := ucast c,
         messageBuffer := replicate (unat c) 0, state := 4\<rparr>"
  by (simp add: processResponse_char_def)

lemma char_command:
  "state m = 4 \<Longrightarrow>
     processResponse_char m c =
       m\<lparr>command := Some (unat c), messageChecksum := messageChecksum m XOR ucast c,
         state := (if messageLengthExpected m > 0 then 5 else 6)\<rparr>"
  by (simp add: processResponse_char_def Let_def)

lemma char_payload:
  "state m = 5 \<Longrightarrow>
     processResponse_char m c =
       m\<lparr>messageBuffer := (messageBuffer m)[messageLengthReceived m := c],
         messageChecksum := messageChecksum m XOR ucast c,
         messageLengthReceived := messageLengthReceived m + 1,
         state := (if messageLengthReceived m + 1 \<ge> messageLengthExpected m then 6 else 5)\<rparr>"
  by (simp add: processResponse_char_def Let_def)

lemma char_checksum:
  "state m = 6 \<Longrightarrow>
     processResponse_char m c =
       (if messageChecksum m = ucast c
        then m\<lparr>commandCount := commandCount m - 1,
               queued := queued m @ [(command m, messageBuffer m)]\<rparr>
        else m)
       \<lparr>state := 0, messageBuffer := [], messageChecksum := 0, messageLengthExpected := 0,
        messageLengthReceived := 0, command := None\<rparr>"
  by (simp add: processResponse_char_def Let_def)

lemma char_no_case: "state m > 6 \<Longrightarrow> processResponse_char m c = m"
  by (simp add: processResponse_char_def)

subsection \<open>A whole V1 frame\<close>

lemma processResponse_header:
  assumes "state m = 0" and "dir = 0x3C \<or> dir = 0x3E"
  shows "processResponse m [0x24, 0x4D, dir, l, c] =
     m\<lparr>messageLengthExpected := unat l,
       messageChecksum := ucast l XOR ucast c,
       messageBuffer := replicate (unat l) 0,
       command := Some (unat c),
       state := (if unat l > 0 then 5 else 6)\<rparr>"
  using assms
  by (simp add: processResponse_Cons processResponse_Nil char_wait_dollar char_wait_marker
      char_wait_direction char_length char_command)

lemma processResponse_payload:
  assumes "state m = 5" and "messageLengthExpected m = length (messageBuffer m)"
    and "messageLengthReceived m + length xs = messageLengthExpected m" and "xs \<noteq> []"
  shows "processResponse m xs =
     m\<lparr>messageBuffer := take (messageLengthReceived m) (messageBuffer m) @ xs,
       messageChecksum := messageChecksum m XOR ucast (xorChecksum xs),
       messageLengthReceived := messageLengthExpected m,
       state := 6\<rparr>"
  using assms
proof (induction xs arbitrary: m)
  case Nil
  then show ?case by simp
next
  case (Cons x xs)
  let ?m = "processResponse_char m x"
  show ?case
  proof (cases "xs = []")
    case True
    with Cons.prems have "take (messageLengthReceived m) (messageBuffer m) @ [x] =
        (messageBuffer m)[messageLengthReceived m := x]"
      using take_Suc_update [of "messageLengthReceived m" "messageBuffer m" x] by simp
    with True Cons.prems show ?thesis
      by (simp add: processResponse_Cons processResponse_Nil char_payload xorChecksum_def)
  next
    case False
    have m': "?m = m\<lparr>messageBuffer := (messageBuffer m)[messageLengthReceived m := x],
         messageChecksum := messageChecksum m XOR ucast x,
         messageLengthReceived := messageLengthReceived m + 1\<rparr>"
      using False Cons.prems by (cases xs) (simp_all add: char_payload)
    have "processResponse ?m xs =
        ?m\<lparr>messageBuffer := take (messageLengthReceived ?m) (messageBuffer ?m) @ xs,
          messageChecksum := messageChecksum ?m XOR ucast (xorChecksum xs),
          messageLengthReceived := messageLengthExpected ?m,
          state := 6\<rparr>"
      using False Cons.prems by (intro Cons.IH) (simp_all add: m')
    moreover have "take (messageLengthReceived m + 1) ((messageBuffer m)[messageLengthReceived m := x])
        = take (messageLengthReceived m) (messageBuffer m) @ [x]"
      using take_Suc_update [of "messageLengthReceived m" "messageBuffer m" x] Cons.prems False
      by simp
    ultimately show ?thesis
      by (simp add: processResponse_Cons m' xorChecksum_def ucast_xor_bytes [symmetric] xor.assoc)
  qed
qed

lemma ucast_byte_eq: "((ucast (a :: u8) :: int32) = ucast (b :: u8)) = (a = b)"
  by (metis ucast_byte_back)

lemma processResponse_V1_frame:
  assumes "state m = 0" and "messageLengthReceived m = 0"
    and "length payload \<le> 255" and "cmd \<le> 255" and "dir = 0x3C \<or> dir = 0x3E"
  shows "processResponse m
           ([0x24, 0x4D, dir, of_nat (length payload), of_nat cmd] @ payload @ [ck]) =
         (if ck = xorChecksum (of_nat (length payload) # of_nat cmd # payload)
          then m\<lparr>commandCount := commandCount m - 1,
                 queued := queued m @ [(Some cmd, payload)]\<rparr>
          else m)
         \<lparr>state := 0, messageBuffer := [], messageChecksum := 0, messageLengthExpected := 0,
          messageLengthReceived := 0, command := None\<rparr>"
proof -
  let ?l = "of_nat (length payload) :: u8" and ?c = "of_nat cmd :: u8"
  let ?h = "m\<lparr>messageLengthExpected := length payload,
       messageChecksum := ucast (?l XOR ?c),
       messageBuffer := replicate (length payload) 0,
       command := Some cmd,
       state := (if length payload > 0 then 5 else 6)\<rparr>"
  have l: "unat ?l = length payload" and c: "unat ?c = cmd"
    using assms by (simp_all add: unat_byte)
  have h: "processResponse m [0x24, 0x4D, dir, ?l, ?c] = ?h"
    using processResponse_header [OF assms(1) assms(5), of ?l ?c]
    by (simp only: l c ucast_xor_bytes)
  have split: "processResponse m ([0x24, 0x4D, dir, ?l, ?c] @ payload @ [ck]) =
      processResponse_char (processResponse ?h payload) ck"
  proof -
    have "processResponse m ([0x24, 0x4D, dir, ?l, ?c] @ payload @ [ck]) =
        processResponse (processResponse (processResponse m [0x24, 0x4D, dir, ?l, ?c]) payload) [ck]"
      by (simp only: processResponse_append)
    then show ?thesis
      unfolding h by (simp only: processResponse_Cons processResponse_Nil)
  qed
  show ?thesis
  proof (cases "payload = []")
    case True
    then show ?thesis
      unfolding split
      by (simp add: processResponse_Nil char_checksum xorChecksum_def
          ucast_byte_eq eq_commute [of ck])
  next
    case False
    have p: "processResponse ?h payload =
        ?h\<lparr>messageBuffer := take (messageLengthReceived ?h) (messageBuffer ?h) @ payload,
           messageChecksum := messageChecksum ?h XOR ucast (xorChecksum payload),
           messageLengthReceived := messageLengthExpected ?h,
           state := 6\<rparr>"
      using False assms(2) by (intro processResponse_payload) simp_all
    show ?thesis
      unfolding split p using False assms(2)
      by (simp add: char_checksum xorChecksum_def
          ucast_byte_eq ucast_xor_bytes xor.assoc eq_commute [of ck])
  qed
qed

subsection \<open>Round trip\<close>

lemma as_response_encodeV1:
  "as_response (encodeV1 cmd payload) =
     [0x24, 0x4D, 0x3E, of_nat (length payload), of_nat cmd] @ payload @
     [xorChecksum (of_nat (length payload) # of_nat cmd # payload)]"
  by (simp add: as_response_def encodeV1_bytes ascii_def)

lemma processResponse_encodeV1:
  assumes "state m = 0" and "messageLengthReceived m = 0"
    and "length payload \<le> 255" and "cmd \<le> 255"
  shows "processResponse m (as_response (encodeV1 cmd payload)) =
         m\<lparr>commandCount := commandCount m - 1, queued := queued m @ [(Some cmd, payload)],
           state := 0, messageBuffer := [], messageChecksum := 0, messageLengthExpected := 0,
           messageLengthReceived := 0, command := None\<rparr>"
  unfolding as_response_encodeV1
  using processResponse_V1_frame [OF assms, of "0x3E"] by simp

text \<open>
  C1. For every command code in 1..254 and every payload of 0..255 bytes: the bytes of
  \<^verbatim>\<open>encodeV1\<close>, with the direction byte \<^verbatim>\<open><\<close> replaced by \<^verbatim>\<open>>\<close>, fed to a new parser,
  make it hand over exactly one frame, whose command is the command code and whose
  payload is the payload. The parser is back in its initial stage with its scratch
  fields cleared, and \<^verbatim>\<open>commandCount\<close> is one less.
\<close>

theorem V1_round_trip:
  assumes "1 \<le> cmd" and "cmd \<le> 254" and "length payload \<le> 255"
  shows "processResponse new_msp (as_response (encodeV1 cmd payload)) =
           new_msp\<lparr>commandCount := - 1, queued := [(Some cmd, payload)]\<rparr>
         \<and> queued (processResponse new_msp (as_response (encodeV1 cmd payload))) =
             [(Some cmd, payload)]"
proof -
  have "processResponse new_msp (as_response (encodeV1 cmd payload)) =
      new_msp\<lparr>commandCount := - 1, queued := [(Some cmd, payload)]\<rparr>"
    using assms processResponse_encodeV1 [of new_msp payload cmd]
    by (simp add: new_msp_def)
  then show ?thesis by simp
qed

theorem V1_round_trip_witness:
  "queued (processResponse new_msp (as_response (encodeV1 245 [1, 2, 3]))) =
     [(Some 245, [1, 2, 3])]"
  using V1_round_trip [of 245 "[1, 2, 3]"] by simp

subsection \<open>Chunks\<close>

text \<open>
  C2. For every inbound byte sequence and every way of cutting it into consecutive
  chunks: calling \<^verbatim>\<open>processResponse\<close> on the chunks one after the other, on the same
  instance, leaves the instance in the same state, and so has handed over the same
  sequence of frames, as one call on the whole sequence.
\<close>

theorem chunk_splitting:
  "foldl processResponse m chunks = processResponse m (concat chunks)
   \<and> queued (foldl processResponse m chunks) = queued (processResponse m (concat chunks))"
proof -
  have "foldl processResponse m chunks = processResponse m (concat chunks)"
    by (induction chunks arbitrary: m) (simp_all add: processResponse_Nil processResponse_append)
  then show ?thesis by simp
qed


text \<open>The frame \<^verbatim>\<open>$ M > 0x00 0x01 0x01\<close> in three chunks.\<close>

theorem chunk_splitting_witness:
  "queued (foldl processResponse new_msp [[0x24, 0x4D], [0x3E, 0x00], [0x01, 0x01]]) =
     [(Some 1, [])]"
proof -
  have "queued (processResponse new_msp [0x24, 0x4D, 0x3E, 0x00, 0x01, 0x01]) = [(Some 1, [])]"
    by code_simp
  then show ?thesis
    using chunk_splitting [of new_msp "[[0x24, 0x4D], [0x3E, 0x00], [0x01, 0x01]]"] by simp
qed

subsection \<open>The checksum stage\<close>

text \<open>Replacing one byte of a sequence by a different byte changes its XOR checksum.\<close>

lemma xorChecksum_update:
  "i < length xs \<Longrightarrow> xorChecksum (xs[i := b]) = xorChecksum xs XOR xs ! i XOR b"
proof (induction xs arbitrary: i)
  case Nil
  then show ?case by simp
next
  case (Cons x xs)
  show ?case
  proof (cases i)
    case 0
    then show ?thesis
      by (simp add: xorChecksum_def ac_simps)
  next
    case (Suc j)
    with Cons.prems have "j < length xs" by simp
    from Cons.IH [OF this] Suc show ?thesis
      by (simp add: xorChecksum_def ac_simps)
  qed
qed

lemma xorChecksum_corrupted:
  assumes "i < length xs" and "b \<noteq> xs ! i"
  shows "xorChecksum (xs[i := b]) \<noteq> xorChecksum xs"
proof
  assume "xorChecksum (xs[i := b]) = xorChecksum xs"
  then have "xorChecksum xs XOR (xorChecksum xs XOR (xs ! i XOR b)) =
      xorChecksum xs XOR xorChecksum xs"
    using assms(1) by (simp add: xorChecksum_update)
  then have "xs ! i XOR b = 0"
    by (simp add: xor.assoc [symmetric])
  then have "(xs ! i XOR b) XOR b = b"
    by simp
  then have "xs ! i = b"
    by (simp add: xor.assoc)
  then show False
    using assms(2) by simp
qed

lemma wait_dollar_after_checksum:
  "state m = 6 \<Longrightarrow>
     state (processResponse_char m c) = 0 \<and> messageLengthReceived (processResponse_char m c) = 0"
  by (simp add: char_checksum)

text \<open>
  A V1 frame with one payload byte replaced by a different byte is consumed to its last
  byte and dropped: nothing is handed over, nothing is logged, and the parser is in its
  initial stage again.
\<close>

lemma corrupted_frame_dropped:
  assumes "state m = 0" and "messageLengthReceived m = 0"
    and "length payload \<le> 255" and "cmd \<le> 255"
    and "i < length payload" and "b \<noteq> payload ! i"
  shows "processResponse m ((as_response (encodeV1 cmd payload))[5 + i := b]) =
         m\<lparr>state := 0, messageBuffer := [], messageChecksum := 0, messageLengthExpected := 0,
           messageLengthReceived := 0, command := None\<rparr>"
proof -
  let ?l = "of_nat (length payload) :: u8" and ?c = "of_nat cmd :: u8"
  have bytes: "(as_response (encodeV1 cmd payload))[5 + i := b] =
      [0x24, 0x4D, 0x3E, of_nat (length (payload[i := b])), ?c] @ payload[i := b] @
      [xorChecksum (?l # ?c # payload)]"
    using assms(5) by (simp add: as_response_encodeV1 list_update_append eval_nat_numeral)
  have "xorChecksum ((?l # ?c # payload)[Suc (Suc i) := b]) \<noteq> xorChecksum (?l # ?c # payload)"
    using assms(5,6) by (intro xorChecksum_corrupted) simp_all
  then have neq: "xorChecksum (?l # ?c # payload) \<noteq>
      xorChecksum (of_nat (length (payload[i := b])) # ?c # payload[i := b])"
    by (simp add: eq_commute)
  show ?thesis
    unfolding bytes
    using processResponse_V1_frame [OF assms(1,2), of "payload[i := b]" cmd "0x3E"
        "xorChecksum (?l # ?c # payload)"] assms(3,4) neq
    by simp
qed

text \<open>
  C8. In the checksum stage (\<open>state = 6\<close>): when the received byte equals the
  accumulated checksum, the parser hands over the frame of the current command and
  buffer and decrements \<^verbatim>\<open>commandCount\<close>; when it differs, no frame is handed over,
  nothing is logged and the counter is unchanged. In both cases the buffer, the checksum
  accumulator, the expected and received lengths and the command are cleared and the
  parser is in stage 0. Hence a valid V1 frame that follows in the stream is handed
  over: after any checksum stage, and in particular after a frame in which one payload
  byte was corrupted.
\<close>

theorem checksum_stage:
  assumes "state m = 6"
  shows "processResponse_char m c =
           (if messageChecksum m = ucast c
            then m\<lparr>commandCount := commandCount m - 1,
                   queued := queued m @ [(command m, messageBuffer m)]\<rparr>
            else m)
           \<lparr>state := 0, messageBuffer := [], messageChecksum := 0, messageLengthExpected := 0,
            messageLengthReceived := 0, command := None\<rparr>
         \<and> (messageChecksum m \<noteq> ucast c \<longrightarrow>
              queued (processResponse_char m c) = queued m
              \<and> logged (processResponse_char m c) = logged m
              \<and> commandCount (processResponse_char m c) = commandCount m)
         \<and> (cmd \<le> 254 \<and> length payload \<le> 255 \<longrightarrow>
              queued (processResponse (processResponse_char m c)
                        (as_response (encodeV1 cmd payload))) =
                queued (processResponse_char m c) @ [(Some cmd, payload)])
         \<and> (cmd \<le> 254 \<and> length payload \<le> 255 \<and> cmd' \<le> 254 \<and> length payload' \<le> 255
              \<and> i < length payload' \<and> b \<noteq> payload' ! i \<longrightarrow>
              queued (processResponse new_msp
                        ((as_response (encodeV1 cmd' payload'))[5 + i := b]
                         @ as_response (encodeV1 cmd payload))) =
                [(Some cmd, payload)])"
proof (intro conjI impI)
  show "processResponse_char m c =
      (if messageChecksum m = ucast c
       then m\<lparr>commandCount := commandCount m - 1,
              queued := queued m @ [(command m, messageBuffer m)]\<rparr>
       else m)
      \<lparr>state := 0, messageBuffer := [], messageChecksum := 0, messageLengthExpected := 0,
       messageLengthReceived := 0, command := None\<rparr>"
    using assms by (rule char_checksum)
next
  assume "messageChecksum m \<noteq> ucast c"
  then show "queued (processResponse_char m c) = queued m"
    and "logged (processResponse_char m c) = logged m"
    and "commandCount (processResponse_char m c) = commandCount m"
    using assms by (simp_all add: char_checksum)
next
  assume "cmd \<le> 254 \<and> length payload \<le> 255"
  then show "queued (processResponse (processResponse_char m c)
        (as_response (encodeV1 cmd payload))) =
      queued (processResponse_char m c) @ [(Some cmd, payload)]"
    using wait_dollar_after_checksum [OF assms, of c]
      processResponse_encodeV1 [of "processResponse_char m c" payload cmd]
    by simp
next
  assume a: "cmd \<le> 254 \<and> length payload \<le> 255 \<and> cmd' \<le> 254 \<and> length payload' \<le> 255
      \<and> i < length payload' \<and> b \<noteq> payload' ! i"
  let ?dropped = "processResponse new_msp ((as_response (encodeV1 cmd' payload'))[5 + i := b])"
  have dropped: "?dropped = new_msp"
    using a corrupted_frame_dropped [of new_msp payload' cmd' i b]
    by (simp add: new_msp_def)
  have "processResponse ?dropped (as_response (encodeV1 cmd payload)) =
      new_msp\<lparr>commandCount := - 1, queued := [(Some cmd, payload)]\<rparr>"
    unfolding dropped using a processResponse_encodeV1 [of new_msp payload cmd]
    by (simp add: new_msp_def)
  then show "queued (processResponse new_msp
        ((as_response (encodeV1 cmd' payload'))[5 + i := b]
         @ as_response (encodeV1 cmd payload))) = [(Some cmd, payload)]"
    by (simp add: processResponse_append)
qed

text \<open>
  A mismatching checksum byte in stage 6, and the frame of command 245 with its second
  payload byte corrupted, followed by a valid frame of command 7.
\<close>

theorem checksum_stage_witness:
  "processResponse_char (new_msp\<lparr>state := 6, messageChecksum := 1, command := Some 1\<rparr>) 2 =
     new_msp
   \<and> queued (processResponse new_msp
        ((as_response (encodeV1 245 [1, 2, 3]))[6 := 9] @ as_response (encodeV1 7 [0x24]))) =
       [(Some 7, [0x24])]"
  using checksum_stage [where m = "new_msp\<lparr>state := 6, messageChecksum := 1, command := Some 1\<rparr>"
      and c = 2 and cmd = 7 and payload = "[0x24]" and cmd' = 245 and payload' = "[1, 2, 3]"
      and i = 1 and b = 9]
  by (simp add: new_msp_def)

subsection \<open>The marker stage\<close>

text \<open>The only way into stage 1 is \<^verbatim>\<open>$\<close> in stage 0, the only way into stage 2 is \<^verbatim>\<open>M\<close> in stage 1.\<close>

lemma enters_wait_marker:
  "(state (processResponse_char m c) = Suc 0) = (state m = 0 \<and> c = 0x24)"
  by (auto simp add: processResponse_char_def Let_def ascii_def)

lemma enters_wait_direction:
  "(state (processResponse_char m c) = 2) = (state m = 1 \<and> c = 0x4D)"
  by (auto simp add: processResponse_char_def Let_def ascii_def)

text \<open>
  C10. In the marker stage (\<open>state = 1\<close>) every byte other than \<^verbatim>\<open>M\<close>, and so the byte
  \<^verbatim>\<open>$\<close>, sends the parser back to stage 0 and changes nothing else: the \<^verbatim>\<open>$\<close> is consumed
  and does not start a frame. So, for every stream, the parser has recognised the header
  \<^verbatim>\<open>$ M\<close> (it is in stage 2) after two more bytes exactly when it was in stage 0 before
  them and they are \<^verbatim>\<open>$\<close> then \<^verbatim>\<open>M\<close>. In particular the input
  \<^verbatim>\<open>$ $ M > 0x00 0x01 0x01\<close> hands over no frame.
\<close>

theorem wait_marker_dollar:
  "(state m = 1 \<and> c \<noteq> 0x4D \<longrightarrow> processResponse_char m c = m\<lparr>state := 0\<rparr>)
   \<and> (state m = 1 \<longrightarrow> processResponse_char m 0x24 = m\<lparr>state := 0\<rparr>)
   \<and> (state (processResponse m (bytes @ [a, b])) = 2) =
       (state (processResponse m bytes) = 0 \<and> a = 0x24 \<and> b = 0x4D)
   \<and> queued (processResponse new_msp [0x24, 0x24, 0x4D, 0x3E, 0x00, 0x01, 0x01]) = []"
proof -
  have "queued (processResponse new_msp [0x24, 0x24, 0x4D, 0x3E, 0x00, 0x01, 0x01]) = []"
    by code_simp
  moreover have "(state (processResponse m (bytes @ [a, b])) = 2) =
      (state (processResponse m bytes) = 0 \<and> a = 0x24 \<and> b = 0x4D)"
    by (simp add: processResponse_append processResponse_Cons processResponse_Nil
        enters_wait_direction enters_wait_marker)
  ultimately show ?thesis
    by (simp add: char_wait_marker)
qed

theorem wait_marker_dollar_witness:
  "processResponse_char (new_msp\<lparr>state := 1\<rparr>) 0x24 = new_msp
   \<and> state (processResponse new_msp ([0x24] @ [0x24, 0x4D])) \<noteq> 2"
  using wait_marker_dollar [where m = "new_msp\<lparr>state := 1\<rparr>" and c = "0x24"]
    wait_marker_dollar [where m = new_msp and bytes = "[0x24]" and a = "0x24" and b = "0x4D"]
  by (simp add: new_msp_def processResponse_Cons processResponse_Nil char_wait_dollar)

end
